theory Spec2Isabelle
  imports Main "HOL-Library.Char_ord" "HOL-Library.List_Lexorder"
begin

section \<open>Graph model\<close>

text \<open>
  Node identifiers are Python strings. They are modelled as \<open>string\<close> (the UTF-8
  bytes of the text): the program only compares node identifiers, sorts them and
  concatenates them, and byte-wise lexicographic order on UTF-8 coincides with Python's
  code-point order, while concatenation commutes with the encoding.

  A graph is a Python dict from a node to the list of its successors. A dict is finite,
  so it is modelled as an association list read with \<open>map_of\<close>.
\<close>

type_synonym node = string

type_synonym graph = "(node \<times> node list) list"

definition LAB1_GRAPH :: graph where
  "LAB1_GRAPH =
     [(''A'', [''D'', ''B'']),
      (''B'', [''C'', ''E'', ''G'']),
      (''C'', [''A'']),
      (''D'', [''C'']),
      (''E'', [''H'']),
      (''F'', []),
      (''G'', [''F'']),
      (''H'', [''G'', ''F''])]"

text \<open>\<^verbatim>\<open>graph.get(node, [])\<close>: the successors of a key, the empty list for any other node.\<close>

definition graph_get :: "graph \<Rightarrow> node \<Rightarrow> node list" where
  "graph_get graph node = (case map_of graph node of None \<Rightarrow> [] | Some neighbors \<Rightarrow> neighbors)"

text \<open>\<^verbatim>\<open>get_all_nodes\<close>: the keys and all the successors, sorted, each once.\<close>

definition get_all_nodes :: "graph \<Rightarrow> node list" where
  "get_all_nodes graph =
     sorted_list_of_set (set (map fst graph) \<union> set (concat (map snd graph)))"

section \<open>Trace snapshots\<close>

text \<open>
  One dict per expansion, with the keys of the source. \<^verbatim>\<open>list(visited)\<close> lists a Python
  set in an order the language does not fix, so the field is modelled as the set itself.
\<close>

record snapshot =
  expanded :: node
  frontier :: "node list"
  visited :: "node set"
  process_path :: string

text \<open>The separator \<^verbatim>\<open>" \<rightarrow> "\<close>: a space, U+2192 (three bytes in UTF-8), a space.\<close>

definition arrow :: string where
  "arrow = [CHR '' '', CHR 0xE2, CHR 0x86, CHR 0x92, CHR '' '']"

text \<open>\<^verbatim>\<open>sep.join(xs)\<close>\<close>

fun join :: "string \<Rightarrow> string list \<Rightarrow> string" where
  "join sep [] = []"
| "join sep [x] = x"
| "join sep (x # y # ys) = x @ sep @ join sep (y # ys)"

definition snap :: "node \<Rightarrow> node list \<Rightarrow> node set \<Rightarrow> node list \<Rightarrow> snapshot" where
  "snap node front vis expanded_order =
     \<lparr>expanded = node, frontier = front, visited = vis,
      process_path = join arrow expanded_order\<rparr>"

section \<open>Traversal engine\<close>

text \<open>
  The inner loop of both searches (lines 66-69 and 93-96 of the source are the same
  loop, on \<open>queue\<close> and on \<open>stack\<close>):
  \<^verbatim>\<open>
  for neighbor in neighbors:
      if neighbor not in visited:
          visited.add(neighbor)
          queue.append(neighbor)
  \<close>
\<close>

fun visit_neighbors :: "node list \<Rightarrow> node list \<times> node set \<Rightarrow> node list \<times> node set" where
  "visit_neighbors [] (pending, vis) = (pending, vis)"
| "visit_neighbors (neighbor # neighbors) (pending, vis) =
     (if neighbor \<notin> vis
      then visit_neighbors neighbors (pending @ [neighbor], insert neighbor vis)
      else visit_neighbors neighbors (pending, vis))"

text \<open>The values of the local variables of a search when its \<open>while\<close> loop exits.\<close>

record final_state =
  final_frontier :: "node list"
  final_visited :: "node set"
  expanded_order :: "node list"
  trace :: "snapshot list"

text \<open>
  The \<open>while\<close> loop of \<^verbatim>\<open>breadth_first_search\<close> (lines 56-69), on its local variables
  \<open>queue\<close>, \<open>visited\<close>, \<open>expanded_order\<close> and \<open>trace\<close>; \<^verbatim>\<open>queue.popleft()\<close> takes the head.
  Python's \<^verbatim>\<open>sorted\<close> on strings is \<open>sort\<close>; \<^verbatim>\<open>sorted(..., reverse=True)\<close> is its
  reverse (equal strings are indistinguishable, so stability does not show).
\<close>

function bfs_loop ::
  "graph \<Rightarrow> node list \<Rightarrow> node set \<Rightarrow> node list \<Rightarrow> snapshot list \<Rightarrow> final_state" where
  "bfs_loop graph [] vis eo tr =
     \<lparr>final_frontier = [], final_visited = vis, expanded_order = eo, trace = tr\<rparr>"
| "bfs_loop graph (node # queue) vis eo tr =
     (let eo' = eo @ [node];
          tr' = tr @ [snap node queue vis eo'];
          neighbors = sort (graph_get graph node);
          (queue', vis') = visit_neighbors neighbors (queue, vis)
      in bfs_loop graph queue' vis' eo' tr')"
  by pat_completeness auto

text \<open>
  The \<open>while\<close> loop of \<^verbatim>\<open>depth_first_search\<close> (lines 83-96).
  The stack is a Python list with its top at the end: \<^verbatim>\<open>stack.pop()\<close> takes the last
  element and \<^verbatim>\<open>stack[::-1]\<close> is the reversed list.
\<close>

function dfs_loop ::
  "graph \<Rightarrow> node list \<Rightarrow> node set \<Rightarrow> node list \<Rightarrow> snapshot list \<Rightarrow> final_state" where
  "dfs_loop graph stack vis eo tr =
     (if stack = []
      then \<lparr>final_frontier = [], final_visited = vis, expanded_order = eo, trace = tr\<rparr>
      else
        let node = last stack;
            stack1 = butlast stack;
            eo' = eo @ [node];
            tr' = tr @ [snap node (rev stack1) vis eo'];
            neighbors = rev (sort (graph_get graph node));
            (stack', vis') = visit_neighbors neighbors (stack1, vis)
        in dfs_loop graph stack' vis' eo' tr')"
  by pat_completeness auto

definition breadth_first_search :: "graph \<Rightarrow> node \<Rightarrow> node list \<times> snapshot list" where
  "breadth_first_search graph start_node =
     (let final = bfs_loop graph [start_node] {start_node} [] []
      in (expanded_order final, trace final))"

definition depth_first_search :: "graph \<Rightarrow> node \<Rightarrow> node list \<times> snapshot list" where
  "depth_first_search graph start_node =
     (let final = dfs_loop graph [start_node] {start_node} [] []
      in (expanded_order final, trace final))"

section \<open>Notions of the specification\<close>

text \<open>
  \<open>fresh ns vis\<close> lists what the inner loop appends: the members of \<open>ns\<close> outside
  \<open>vis\<close>, each at its first occurrence.
\<close>

fun fresh :: "node list \<Rightarrow> node set \<Rightarrow> node list" where
  "fresh [] vis = []"
| "fresh (n # ns) vis = (if n \<notin> vis then n # fresh ns (insert n vis) else fresh ns vis)"

text \<open>
  The number of nodes of the graph not yet visited. The loops end because every
  iteration takes one node from the frontier, and every node it appends leaves this
  finite set: the length of the frontier plus \<open>unvisited\<close> drops at every iteration.
\<close>

definition unvisited :: "graph \<Rightarrow> node set \<Rightarrow> nat" where
  "unvisited graph vis = card (set (get_all_nodes graph) - vis)"

text \<open>The directed edges of a graph and the nodes reachable from a start node.\<close>

definition edges :: "graph \<Rightarrow> (node \<times> node) set" where
  "edges graph = {(u, v). v \<in> set (graph_get graph u)}"

definition reachable :: "graph \<Rightarrow> node \<Rightarrow> node set" where
  "reachable graph start = {v. (start, v) \<in> (edges graph)\<^sup>*}"

text \<open>
  What a search has discovered once it has expanded the nodes \<open>eo\<close>: the start node and
  every successor of an expanded node.
\<close>

definition discovered :: "graph \<Rightarrow> node \<Rightarrow> node list \<Rightarrow> node set" where
  "discovered graph start eo = insert start (\<Union>u \<in> set eo. set (graph_get graph u))"

text \<open>
  The loop invariant, on the frontier in the order it is displayed (the queue for
  breadth-first search, the reversed stack for depth-first search).
\<close>

definition search_inv :: "graph \<Rightarrow> node \<Rightarrow> node list \<Rightarrow> node set \<Rightarrow> node list \<Rightarrow> bool" where
  "search_inv graph start front vis eo \<longleftrightarrow>
     distinct (eo @ front) \<and> vis = set eo \<union> set front \<and>
     vis = discovered graph start eo \<and> vis \<subseteq> reachable graph start"

text \<open>
  The snapshot of step \<open>i\<close> shows the state after the node was taken from the frontier and
  before its successors are examined.
\<close>

definition snapshot_ok :: "graph \<Rightarrow> node \<Rightarrow> node list \<Rightarrow> nat \<Rightarrow> snapshot \<Rightarrow> bool" where
  "snapshot_ok graph start eo i s \<longleftrightarrow>
     expanded s = eo ! i \<and>
     visited s = discovered graph start (take i eo) \<and>
     set (frontier s) = visited s - set (take (Suc i) eo) \<and>
     process_path s = join arrow (take (Suc i) eo)"

definition trace_inv :: "graph \<Rightarrow> node \<Rightarrow> node list \<Rightarrow> snapshot list \<Rightarrow> bool" where
  "trace_inv graph start eo tr \<longleftrightarrow>
     length tr = length eo \<and> (\<forall>i < length tr. snapshot_ok graph start eo i (tr ! i))"

definition final_ok :: "graph \<Rightarrow> node \<Rightarrow> final_state \<Rightarrow> bool" where
  "final_ok graph start final \<longleftrightarrow>
     final_frontier final = [] \<and>
     search_inv graph start [] (final_visited final) (expanded_order final) \<and>
     trace_inv graph start (expanded_order final) (trace final)"

section \<open>Termination of the frontier loops\<close>

lemma visit_neighbors_eq:
  "visit_neighbors ns (pending, vis) = (pending @ fresh ns vis, vis \<union> set ns)"
  by (induction ns arbitrary: pending vis) auto

lemma set_fresh: "set (fresh ns vis) = set ns - vis"
  by (induction ns arbitrary: vis) auto

lemma distinct_fresh: "distinct (fresh ns vis)"
  by (induction ns arbitrary: vis) (auto simp: set_fresh)

lemma length_fresh: "length (fresh ns vis) = card (set ns - vis)"
  using distinct_card [OF distinct_fresh, of ns vis] by (simp add: set_fresh)

lemma set_graph_get: "set (graph_get graph node) \<subseteq> set (get_all_nodes graph)"
proof (cases "map_of graph node")
  case None
  then show ?thesis by (simp add: graph_get_def)
next
  case (Some ns)
  then have "(node, ns) \<in> set graph" by (rule map_of_SomeD)
  then have "set ns \<subseteq> set (concat (map snd graph))" by force
  with Some show ?thesis by (auto simp: graph_get_def get_all_nodes_def)
qed

lemma card_unvisited:
  assumes "finite U" "N \<subseteq> U"
  shows "card (N - vis) + card (U - (vis \<union> N)) = card (U - vis)"
proof -
  have "U - vis = (N - vis) \<union> (U - (vis \<union> N))" using assms by auto
  moreover have "(N - vis) \<inter> (U - (vis \<union> N)) = {}" by auto
  moreover have "finite (N - vis)" "finite (U - (vis \<union> N))"
    using assms by (auto intro: finite_subset)
  ultimately show ?thesis by (metis card_Un_disjoint)
qed

lemma visit_neighbors_measure:
  assumes "(pending', vis') = visit_neighbors ns (pending, vis)"
    and "set ns = set (graph_get graph node)"
  shows "length pending' + unvisited graph vis' = length pending + unvisited graph vis"
proof -
  have p: "pending' = pending @ fresh ns vis" and v: "vis' = vis \<union> set ns"
    using assms(1) by (simp_all add: visit_neighbors_eq)
  have "card (set ns - vis) + card (set (get_all_nodes graph) - (vis \<union> set ns))
        = card (set (get_all_nodes graph) - vis)"
    by (rule card_unvisited) (simp_all add: assms(2) set_graph_get)
  then show ?thesis by (simp add: p v length_fresh unvisited_def)
qed

lemma bfs_loop_decreases:
  assumes "(queue', vis') = visit_neighbors (sort (graph_get graph node)) (queue, vis)"
  shows "length queue' + unvisited graph vis' < Suc (length queue + unvisited graph vis)"
  using visit_neighbors_measure [OF assms, of graph node] by simp

lemma dfs_loop_decreases:
  assumes "stack \<noteq> []"
    and "(stack', vis') =
         visit_neighbors (rev (sort (graph_get graph (last stack)))) (butlast stack, vis)"
  shows "length stack' + unvisited graph vis' < length stack + unvisited graph vis"
proof -
  have "length stack' + unvisited graph vis' = length (butlast stack) + unvisited graph vis"
    using visit_neighbors_measure [OF assms(2), of graph "last stack"] by simp
  moreover have "length (butlast stack) < length stack"
    using assms(1) by (cases stack rule: rev_cases) simp_all
  ultimately show ?thesis by linarith
qed

termination bfs_loop
  by (relation "measure (\<lambda>(graph, queue, vis, eo, tr). length queue + unvisited graph vis)")
     (simp_all add: bfs_loop_decreases)

termination dfs_loop
  by (relation "measure (\<lambda>(graph, stack, vis, eo, tr). length stack + unvisited graph vis)")
     (simp_all add: dfs_loop_decreases)

lemma bfs_loop_Cons:
  "bfs_loop graph (node # queue) vis eo tr =
     bfs_loop graph (queue @ fresh (sort (graph_get graph node)) vis)
       (vis \<union> set (graph_get graph node)) (eo @ [node])
       (tr @ [snap node queue vis (eo @ [node])])"
  by (simp add: visit_neighbors_eq Let_def)

lemma bfs_loop_Nil:
  "bfs_loop graph [] vis eo tr =
     \<lparr>final_frontier = [], final_visited = vis, expanded_order = eo, trace = tr\<rparr>"
  by simp

declare bfs_loop.simps [simp del]

declare dfs_loop.simps [simp del]

lemma dfs_loop_Nil:
  "dfs_loop graph [] vis eo tr =
     \<lparr>final_frontier = [], final_visited = vis, expanded_order = eo, trace = tr\<rparr>"
  by (subst dfs_loop.simps) simp

lemma dfs_loop_snoc:
  "dfs_loop graph (stack @ [node]) vis eo tr =
     dfs_loop graph (stack @ fresh (rev (sort (graph_get graph node))) vis)
       (vis \<union> set (graph_get graph node)) (eo @ [node])
       (tr @ [snap node (rev stack) vis (eo @ [node])])"
  by (subst dfs_loop.simps) (simp add: visit_neighbors_eq Let_def)

lemma fst_breadth_first_search:
  "fst (breadth_first_search graph start) = expanded_order (bfs_loop graph [start] {start} [] [])"
  by (simp add: breadth_first_search_def Let_def)

lemma snd_breadth_first_search:
  "snd (breadth_first_search graph start) = trace (bfs_loop graph [start] {start} [] [])"
  by (simp add: breadth_first_search_def Let_def)

lemma fst_depth_first_search:
  "fst (depth_first_search graph start) = expanded_order (dfs_loop graph [start] {start} [] [])"
  by (simp add: depth_first_search_def Let_def)

lemma snd_depth_first_search:
  "snd (depth_first_search graph start) = trace (dfs_loop graph [start] {start} [] [])"
  by (simp add: depth_first_search_def Let_def)

section \<open>Invariants of the frontier loops\<close>

lemma reachable_start: "start \<in> reachable graph start"
  by (simp add: reachable_def)

lemma reachable_step:
  "u \<in> reachable graph start \<Longrightarrow> v \<in> set (graph_get graph u) \<Longrightarrow> v \<in> reachable graph start"
  by (auto simp: reachable_def edges_def intro: rtrancl_into_rtrancl)

lemma reachable_least:
  assumes "start \<in> S" and "\<forall>u \<in> S. set (graph_get graph u) \<subseteq> S"
  shows "reachable graph start \<subseteq> S"
proof
  fix v assume "v \<in> reachable graph start"
  then have "(start, v) \<in> (edges graph)\<^sup>*" by (simp add: reachable_def)
  then show "v \<in> S"
    by (induction rule: rtrancl_induct) (use assms in \<open>auto simp: edges_def\<close>)
qed

lemma reachable_nodes: "reachable graph start \<subseteq> insert start (set (get_all_nodes graph))"
  by (rule reachable_least) (use set_graph_get in auto)

lemma search_inv_init: "search_inv graph start [start] {start} []"
  by (simp add: search_inv_def discovered_def reachable_start)

lemma discovered_snoc:
  "discovered graph start (eo @ [node]) = discovered graph start eo \<union> set (graph_get graph node)"
  by (auto simp: discovered_def)

lemma discovered_mono:
  "i \<le> j \<Longrightarrow> discovered graph start (take i eo) \<subseteq> discovered graph start (take j eo)"
  using set_take_subset_set_take [of i j eo] by (auto simp: discovered_def)

lemma discovered_take_Suc:
  "i < length eo \<Longrightarrow>
   discovered graph start (take (Suc i) eo) =
     discovered graph start (take i eo) \<union> set (graph_get graph (eo ! i))"
  by (simp add: take_Suc_conv_app_nth discovered_snoc)

lemma search_inv_step:
  assumes inv: "search_inv graph start (node # front) vis eo"
    and ns: "set ns = set (graph_get graph node)"
    and s: "set front' = set (front @ fresh ns vis)"
    and d: "distinct front' = distinct (front @ fresh ns vis)"
  shows "search_inv graph start front' (vis \<union> set ns) (eo @ [node])"
proof -
  from inv have dist: "distinct eo" "distinct front" "node \<notin> set eo" "node \<notin> set front"
      "set eo \<inter> set front = {}"
    and vis: "vis = set eo \<union> insert node (set front)"
    and disc: "vis = discovered graph start eo"
    and reach: "vis \<subseteq> reachable graph start"
    by (auto simp: search_inv_def)
  have "node \<in> reachable graph start" using vis reach by auto
  then have r: "set ns \<subseteq> reachable graph start"
    using ns by (auto intro: reachable_step)
  have 1: "distinct ((eo @ [node]) @ front')"
    using dist vis by (auto simp: s d set_fresh distinct_fresh)
  have 2: "vis \<union> set ns = set (eo @ [node]) \<union> set front'"
    using vis by (auto simp: s set_fresh)
  have 3: "vis \<union> set ns = discovered graph start (eo @ [node])"
    by (simp add: discovered_snoc disc ns)
  show ?thesis unfolding search_inv_def using 1 2 3 r reach by blast
qed

lemma snapshot_ok_snoc:
  "i < length eo \<Longrightarrow> snapshot_ok graph start (eo @ [node]) i s = snapshot_ok graph start eo i s"
  by (simp add: snapshot_ok_def nth_append)

lemma snapshot_ok_new:
  assumes "search_inv graph start (node # front) vis eo"
  shows "snapshot_ok graph start (eo @ [node]) (length eo) (snap node front vis (eo @ [node]))"
  using assms by (auto simp: snapshot_ok_def snap_def search_inv_def)

lemma trace_inv_init: "trace_inv graph start [] []"
  by (simp add: trace_inv_def)

lemma trace_inv_step:
  assumes "search_inv graph start (node # front) vis eo" and "trace_inv graph start eo tr"
  shows "trace_inv graph start (eo @ [node]) (tr @ [snap node front vis (eo @ [node])])"
  unfolding trace_inv_def
proof (intro conjI allI impI)
  show "length (tr @ [snap node front vis (eo @ [node])]) = length (eo @ [node])"
    using assms(2) by (simp add: trace_inv_def)
next
  fix i assume "i < length (tr @ [snap node front vis (eo @ [node])])"
  then consider "i < length tr" | "i = length tr" by fastforce
  then show "snapshot_ok graph start (eo @ [node]) i ((tr @ [snap node front vis (eo @ [node])]) ! i)"
  proof cases
    case 1
    with assms(2) show ?thesis by (simp add: trace_inv_def nth_append snapshot_ok_snoc)
  next
    case 2
    with assms(2) have "i = length eo" by (simp add: trace_inv_def)
    with 2 snapshot_ok_new [OF assms(1)] show ?thesis by (simp add: nth_append)
  qed
qed

lemma bfs_loop_final:
  "search_inv graph start queue vis eo \<Longrightarrow> trace_inv graph start eo tr \<Longrightarrow>
   final_ok graph start (bfs_loop graph queue vis eo tr)"
proof (induction graph queue vis eo tr rule: bfs_loop.induct)
  case (1 graph vis eo tr)
  then show ?case by (simp add: final_ok_def bfs_loop_Nil)
next
  case (2 graph node queue vis eo tr)
  let ?ns = "sort (graph_get graph node)"
  have v: "(queue @ fresh ?ns vis, vis \<union> set ?ns) = visit_neighbors ?ns (queue, vis)"
    by (simp add: visit_neighbors_eq)
  have "search_inv graph start (queue @ fresh ?ns vis) (vis \<union> set ?ns) (eo @ [node])"
    by (rule search_inv_step [OF "2.prems"(1)]) simp_all
  moreover have "trace_inv graph start (eo @ [node]) (tr @ [snap node queue vis (eo @ [node])])"
    by (rule trace_inv_step [OF "2.prems"])
  ultimately have "final_ok graph start
      (bfs_loop graph (queue @ fresh ?ns vis) (vis \<union> set ?ns) (eo @ [node])
         (tr @ [snap node queue vis (eo @ [node])]))"
    by (rule "2.IH" [OF refl refl refl refl v])
  then show ?case by (simp only: bfs_loop_Cons set_sort)
qed

lemma dfs_loop_final:
  "search_inv graph start (rev stack) vis eo \<Longrightarrow> trace_inv graph start eo tr \<Longrightarrow>
   final_ok graph start (dfs_loop graph stack vis eo tr)"
proof (induction graph stack vis eo tr rule: dfs_loop.induct)
  case (1 graph stack vis eo tr)
  show ?case
  proof (cases stack rule: rev_cases)
    case Nil
    with "1.prems" show ?thesis by (simp add: final_ok_def dfs_loop_Nil)
  next
    case (snoc stack1 node)
    let ?ns = "rev (sort (graph_get graph node))"
    have ne: "stack \<noteq> []" and l: "node = last stack" and b: "stack1 = butlast stack"
      using snoc by simp_all
    have v: "(stack1 @ fresh ?ns vis, vis \<union> set ?ns) = visit_neighbors ?ns (stack1, vis)"
      by (simp add: visit_neighbors_eq)
    from "1.prems"(1) snoc have inv: "search_inv graph start (node # rev stack1) vis eo" by simp
    have "search_inv graph start (rev (stack1 @ fresh ?ns vis)) (vis \<union> set ?ns) (eo @ [node])"
      by (rule search_inv_step [OF inv]) auto
    moreover have "trace_inv graph start (eo @ [node]) (tr @ [snap node (rev stack1) vis (eo @ [node])])"
      by (rule trace_inv_step [OF inv "1.prems"(2)])
    ultimately have "final_ok graph start
        (dfs_loop graph (stack1 @ fresh ?ns vis) (vis \<union> set ?ns) (eo @ [node])
           (tr @ [snap node (rev stack1) vis (eo @ [node])]))"
      by (rule "1.IH" [OF ne l b refl refl refl refl v])
    then show ?thesis by (simp only: snoc dfs_loop_snoc set_rev set_sort)
  qed
qed

lemma bfs_final_ok: "final_ok graph start (bfs_loop graph [start] {start} [] [])"
  by (rule bfs_loop_final [OF search_inv_init trace_inv_init])

lemma dfs_final_ok: "final_ok graph start (dfs_loop graph [start] {start} [] [])"
  by (rule dfs_loop_final) (simp_all add: search_inv_init trace_inv_init)

lemma final_ok_distinct: "final_ok graph start final \<Longrightarrow> distinct (expanded_order final)"
  by (simp add: final_ok_def search_inv_def)

lemma final_ok_visited: "final_ok graph start final \<Longrightarrow> final_visited final = set (expanded_order final)"
  by (simp add: final_ok_def search_inv_def)

lemma final_ok_reachable:
  assumes "final_ok graph start final"
  shows "set (expanded_order final) = reachable graph start"
proof
  show "set (expanded_order final) \<subseteq> reachable graph start"
    using assms by (auto simp: final_ok_def search_inv_def)
next
  from assms have d: "set (expanded_order final) = discovered graph start (expanded_order final)"
    unfolding final_ok_def search_inv_def by auto
  have "start \<in> set (expanded_order final)"
    by (subst d) (simp add: discovered_def)
  moreover have "\<forall>u \<in> set (expanded_order final). set (graph_get graph u) \<subseteq> set (expanded_order final)"
    by (subst (2) d) (auto simp: discovered_def)
  ultimately show "reachable graph start \<subseteq> set (expanded_order final)"
    by (rule reachable_least)
qed

lemma final_ok_length:
  assumes "final_ok graph start final"
  shows "length (expanded_order final) \<le> Suc (length (get_all_nodes graph))"
proof -
  have "length (expanded_order final) = card (set (expanded_order final))"
    using final_ok_distinct [OF assms] by (simp add: distinct_card)
  also have "\<dots> \<le> card (insert start (set (get_all_nodes graph)))"
    using final_ok_reachable [OF assms] reachable_nodes [of graph start]
    by (intro card_mono) auto
  also have "\<dots> \<le> Suc (card (set (get_all_nodes graph)))"
    by (simp add: card_insert_if)
  also have "\<dots> \<le> Suc (length (get_all_nodes graph))"
    by (simp add: card_length)
  finally show ?thesis .
qed

lemma bfs_trace_inv:
  "trace_inv graph start (fst (breadth_first_search graph start)) (snd (breadth_first_search graph start))"
  using bfs_final_ok [of graph start]
  by (simp add: final_ok_def fst_breadth_first_search snd_breadth_first_search)

lemma dfs_trace_inv:
  "trace_inv graph start (fst (depth_first_search graph start)) (snd (depth_first_search graph start))"
  using dfs_final_ok [of graph start]
  by (simp add: final_ok_def fst_depth_first_search snd_depth_first_search)

lemma search_trace_inv:
  assumes "search = breadth_first_search \<or> search = depth_first_search"
    and "search graph start = (eo, tr)"
  shows "trace_inv graph start eo tr"
  using assms bfs_trace_inv [of graph start] dfs_trace_inv [of graph start] by auto

lemma trace_inv_monotone:
  assumes "trace_inv graph start eo tr" and "i \<le> j" and "j < length tr"
  shows "visited (tr ! i) \<subseteq> visited (tr ! j)"
  using assms discovered_mono [OF assms(2), of graph start eo]
  by (simp add: trace_inv_def snapshot_ok_def)

lemma trace_inv_snapshot:
  assumes "trace_inv graph start eo tr" and "i < length tr"
  shows "length tr = length eo \<and>
     expanded (tr ! i) = eo ! i \<and>
     expanded (tr ! i) \<notin> set (frontier (tr ! i)) \<and>
     set (frontier (tr ! i)) = visited (tr ! i) - set (take (Suc i) eo) \<and>
     visited (tr ! i) = insert start (\<Union>u \<in> set (take i eo). set (graph_get graph u)) \<and>
     (\<forall>c \<in> set (graph_get graph (expanded (tr ! i))).
        c \<notin> visited (tr ! i) \<longrightarrow> c \<notin> set (frontier (tr ! i))) \<and>
     (Suc i < length tr \<longrightarrow>
        visited (tr ! Suc i) = visited (tr ! i) \<union> set (graph_get graph (expanded (tr ! i)))) \<and>
     process_path (tr ! i) = join arrow (take (Suc i) eo)"
proof -
  from assms have len: "length tr = length eo" and ok: "snapshot_ok graph start eo i (tr ! i)"
    by (simp_all add: trace_inv_def)
  from assms(2) len have i: "i < length eo" by simp
  have e: "expanded (tr ! i) = eo ! i"
    and v: "visited (tr ! i) = discovered graph start (take i eo)"
    and f: "set (frontier (tr ! i)) = visited (tr ! i) - set (take (Suc i) eo)"
    and p: "process_path (tr ! i) = join arrow (take (Suc i) eo)"
    using ok by (simp_all add: snapshot_ok_def)
  have "eo ! i \<in> set (take (Suc i) eo)"
    using i by (simp add: take_Suc_conv_app_nth)
  then have 1: "expanded (tr ! i) \<notin> set (frontier (tr ! i))" by (simp add: e f)
  have 2: "\<forall>c \<in> set (graph_get graph (expanded (tr ! i))).
        c \<notin> visited (tr ! i) \<longrightarrow> c \<notin> set (frontier (tr ! i))"
    by (simp add: f)
  have 3: "Suc i < length tr \<longrightarrow>
        visited (tr ! Suc i) = visited (tr ! i) \<union> set (graph_get graph (expanded (tr ! i)))"
  proof
    assume s: "Suc i < length tr"
    with assms(1) have "visited (tr ! Suc i) = discovered graph start (take (Suc i) eo)"
      by (simp add: trace_inv_def snapshot_ok_def)
    then show "visited (tr ! Suc i) = visited (tr ! i) \<union> set (graph_get graph (expanded (tr ! i)))"
      by (simp add: discovered_take_Suc [OF i] v e)
  qed
  have 4: "visited (tr ! i) = insert start (\<Union>u \<in> set (take i eo). set (graph_get graph u))"
    by (simp add: v discovered_def)
  show ?thesis using len e 1 f 4 2 3 p by blast
qed

section \<open>The fixture graph\<close>

text \<open>
  Claim C1, as amended. On the fixture graph from \<open>A\<close>, breadth-first search examines the
  successors of a node in sorted order, so it expands \<open>B\<close> before \<open>D\<close>: the order is
  A, B, D, C, E, G, H, F.
\<close>

theorem bfs_fixture_order:
  "fst (breadth_first_search LAB1_GRAPH ''A'') =
     [''A'', ''B'', ''D'', ''C'', ''E'', ''G'', ''H'', ''F'']"
  by code_simp

text \<open>
  Claim C1, as stated: the order A, D, B, C, E, G, H, F is not what breadth-first search
  returns on the fixture graph.
\<close>

theorem bfs_fixture_order_counterexample:
  "fst (breadth_first_search LAB1_GRAPH ''A'') \<noteq>
     [''A'', ''D'', ''B'', ''C'', ''E'', ''G'', ''H'', ''F'']"
  by code_simp

text \<open>
  Claim C2, as amended. On the fixture graph from \<open>A\<close>, depth-first search pushes the
  successors in descending order and pops the smallest first: the order is
  A, B, C, E, H, F, G, D.
\<close>

theorem dfs_fixture_order:
  "fst (depth_first_search LAB1_GRAPH ''A'') =
     [''A'', ''B'', ''C'', ''E'', ''H'', ''F'', ''G'', ''D'']"
  by code_simp

text \<open>
  Claim C2, as stated: the order A, D, C, B, E, H, G, F is not what depth-first search
  returns on the fixture graph.
\<close>

theorem dfs_fixture_order_counterexample:
  "fst (depth_first_search LAB1_GRAPH ''A'') \<noteq>
     [''A'', ''D'', ''C'', ''B'', ''E'', ''H'', ''G'', ''F'']"
  by code_simp

text \<open>
  Claim C3, as amended. The first snapshot of either search on the fixture graph from
  \<open>A\<close> is taken before the successors of \<open>A\<close> are examined: expanded node \<open>A\<close>, empty
  frontier, visited set \<open>{A}\<close>, process path \<open>A\<close>.
\<close>

theorem first_snapshot:
  "hd (snd (breadth_first_search LAB1_GRAPH ''A'')) =
     \<lparr>expanded = ''A'', frontier = [], visited = {''A''}, process_path = ''A''\<rparr> \<and>
   hd (snd (depth_first_search LAB1_GRAPH ''A'')) =
     \<lparr>expanded = ''A'', frontier = [], visited = {''A''}, process_path = ''A''\<rparr>"
  by code_simp

text \<open>
  Claim C3, as stated: the first snapshots do not hold the frontier \<open>[D, B]\<close> and the
  visited set \<open>{A, D, B}\<close>.
\<close>

theorem first_snapshot_counterexample:
  "\<not> (hd (snd (breadth_first_search LAB1_GRAPH ''A'')) =
        \<lparr>expanded = ''A'', frontier = [''D'', ''B''], visited = {''A'', ''D'', ''B''},
         process_path = ''A''\<rparr> \<and>
      hd (snd (depth_first_search LAB1_GRAPH ''A'')) =
        \<lparr>expanded = ''A'', frontier = [''D'', ''B''], visited = {''A'', ''D'', ''B''},
         process_path = ''A''\<rparr>)"
  by code_simp

section \<open>The trace contract\<close>

text \<open>
  Claim C4. Every snapshot of either search shows the state after the expanded node left
  the frontier and before its successors are examined. For the snapshot of step \<open>i\<close>:
  its node is the \<open>i\<close>-th expanded node, which is not in its frontier; the frontier holds
  the visited nodes not yet expanded; the visited set is the start node with the
  successors of the nodes expanded at earlier steps only, so a successor of the current
  node that is not yet visited is not in the frontier either, and the successors of the
  current node join the visited set in the next snapshot; the process path is the
  expanded nodes up to and including the current one, joined with the arrow separator.
\<close>

theorem trace_snapshot_contract:
  assumes "search = breadth_first_search \<or> search = depth_first_search"
    and "search graph start_node = (eo, tr)"
    and "i < length tr"
  shows "length tr = length eo \<and>
     expanded (tr ! i) = eo ! i \<and>
     expanded (tr ! i) \<notin> set (frontier (tr ! i)) \<and>
     set (frontier (tr ! i)) = visited (tr ! i) - set (take (Suc i) eo) \<and>
     visited (tr ! i) = insert start_node (\<Union>u \<in> set (take i eo). set (graph_get graph u)) \<and>
     (\<forall>c \<in> set (graph_get graph (expanded (tr ! i))).
        c \<notin> visited (tr ! i) \<longrightarrow> c \<notin> set (frontier (tr ! i))) \<and>
     (Suc i < length tr \<longrightarrow>
        visited (tr ! Suc i) = visited (tr ! i) \<union> set (graph_get graph (expanded (tr ! i)))) \<and>
     process_path (tr ! i) = join arrow (take (Suc i) eo)"
  by (rule trace_inv_snapshot [OF search_trace_inv [OF assms(1,2)] assms(3)])

text \<open>
  Claim C4 at the second snapshot of breadth-first search on the fixture graph from \<open>A\<close>.
\<close>

theorem trace_snapshot_contract_witness:
  "(breadth_first_search = breadth_first_search \<or> breadth_first_search = depth_first_search) \<and>
   (1::nat) < length (snd (breadth_first_search LAB1_GRAPH ''A'')) \<and>
   expanded (snd (breadth_first_search LAB1_GRAPH ''A'') ! 1)
     \<notin> set (frontier (snd (breadth_first_search LAB1_GRAPH ''A'') ! 1)) \<and>
   visited (snd (breadth_first_search LAB1_GRAPH ''A'') ! 1) =
     insert ''A'' (\<Union>u \<in> set (take 1 (fst (breadth_first_search LAB1_GRAPH ''A''))).
        set (graph_get LAB1_GRAPH u)) \<and>
   process_path (snd (breadth_first_search LAB1_GRAPH ''A'') ! 1) =
     join arrow (take (Suc 1) (fst (breadth_first_search LAB1_GRAPH ''A'')))"
proof -
  have h1: "breadth_first_search = breadth_first_search \<or> breadth_first_search = depth_first_search"
    by simp
  have h2: "breadth_first_search LAB1_GRAPH ''A'' =
      (fst (breadth_first_search LAB1_GRAPH ''A''), snd (breadth_first_search LAB1_GRAPH ''A''))"
    by simp
  have h3: "(1::nat) < length (snd (breadth_first_search LAB1_GRAPH ''A''))"
    by code_simp
  show ?thesis
    using trace_snapshot_contract [OF h1 h2 h3] h1 h3 by blast
qed

section \<open>Tie-break among siblings\<close>

lemma sorted_fresh: "sorted ns \<Longrightarrow> sorted (fresh ns vis)"
  by (induction ns arbitrary: vis) (auto simp: set_fresh)

lemma sorted_rev_fresh: "sorted (rev ns) \<Longrightarrow> sorted (rev (fresh ns vis))"
  by (induction ns arbitrary: vis) (auto simp: set_fresh sorted_append)

lemma fresh_sort_two:
  assumes "set ns - vis = {x, y}" and "x < y"
  shows "fresh (sort ns) vis = [x, y]"
proof (rule sorted_distinct_set_unique)
  show "sorted (fresh (sort ns) vis)" by (simp add: sorted_fresh)
  show "distinct (fresh (sort ns) vis)" by (rule distinct_fresh)
  show "sorted [x, y]" using assms(2) by simp
  show "distinct [x, y]" using assms(2) by simp
  show "set (fresh (sort ns) vis) = set [x, y]" using assms(1) by (simp add: set_fresh)
qed

lemma fresh_rev_sort_two:
  assumes "set ns - vis = {x, y}" and "x < y"
  shows "fresh (rev (sort ns)) vis = [y, x]"
proof -
  have "rev (fresh (rev (sort ns)) vis) = [x, y]"
  proof (rule sorted_distinct_set_unique)
    show "sorted (rev (fresh (rev (sort ns)) vis))" by (simp add: sorted_rev_fresh)
    show "distinct (rev (fresh (rev (sort ns)) vis))" by (simp add: distinct_fresh)
    show "sorted [x, y]" using assms(2) by simp
    show "distinct [x, y]" using assms(2) by simp
    show "set (rev (fresh (rev (sort ns)) vis)) = set [x, y]"
      using assms(1) by (simp add: set_fresh)
  qed
  then have "rev (rev (fresh (rev (sort ns)) vis)) = rev [x, y]" by (rule arg_cong)
  then show ?thesis by simp
qed

lemma dfs_expands_stack:
  "\<exists>rest. expanded_order (dfs_loop graph stack vis eo tr) = eo @ rest \<and> set stack \<subseteq> set rest"
proof (induction graph stack vis eo tr rule: dfs_loop.induct)
  case (1 graph stack vis eo tr)
  show ?case
  proof (cases stack rule: rev_cases)
    case Nil
    then show ?thesis by (simp add: dfs_loop_Nil)
  next
    case (snoc stack1 node)
    let ?ns = "rev (sort (graph_get graph node))"
    have ne: "stack \<noteq> []" and l: "node = last stack" and b: "stack1 = butlast stack"
      using snoc by simp_all
    have v: "(stack1 @ fresh ?ns vis, vis \<union> set ?ns) = visit_neighbors ?ns (stack1, vis)"
      by (simp add: visit_neighbors_eq)
    from "1.IH" [OF ne l b refl refl refl refl v]
    obtain rest where r: "expanded_order
        (dfs_loop graph (stack1 @ fresh ?ns vis) (vis \<union> set ?ns) (eo @ [node])
           (tr @ [snap node (rev stack1) vis (eo @ [node])])) = (eo @ [node]) @ rest"
      and s: "set (stack1 @ fresh ?ns vis) \<subseteq> set rest"
      by blast
    have "expanded_order (dfs_loop graph stack vis eo tr) = eo @ node # rest"
      using r by (simp add: snoc dfs_loop_snoc)
    moreover have "set stack \<subseteq> set (node # rest)" using s snoc by auto
    ultimately show ?thesis by blast
  qed
qed

lemma bfs_expands_queue:
  "\<exists>rest. expanded_order (bfs_loop graph queue vis eo tr) = eo @ queue @ rest"
proof (induction graph queue vis eo tr rule: bfs_loop.induct)
  case (1 graph vis eo tr)
  show ?case by (simp add: bfs_loop_Nil)
next
  case (2 graph node queue vis eo tr)
  let ?ns = "sort (graph_get graph node)"
  have v: "(queue @ fresh ?ns vis, vis \<union> set ?ns) = visit_neighbors ?ns (queue, vis)"
    by (simp add: visit_neighbors_eq)
  from "2.IH" [OF refl refl refl refl v]
  obtain rest where "expanded_order
      (bfs_loop graph (queue @ fresh ?ns vis) (vis \<union> set ?ns) (eo @ [node])
         (tr @ [snap node queue vis (eo @ [node])]))
      = (eo @ [node]) @ (queue @ fresh ?ns vis) @ rest"
    by blast
  then have "expanded_order (bfs_loop graph (node # queue) vis eo tr)
      = eo @ (node # queue) @ (fresh ?ns vis @ rest)"
    by (simp add: bfs_loop_Cons)
  then show ?case by blast
qed

text \<open>
  Claim C5. When the expanded node has exactly two successors \<open>x < y\<close> not yet visited,
  the neighbor loop of breadth-first search appends \<open>x\<close> and then \<open>y\<close> to the queue, the
  search goes on with that queue and expands \<open>x\<close> immediately before \<open>y\<close>, after the nodes
  that were already queued. The neighbor loop of depth-first search pushes \<open>y\<close> and then
  \<open>x\<close> on the stack, so that the search expands \<open>x\<close> next and \<open>y\<close> later.
\<close>

theorem tie_break:
  assumes "set (graph_get graph node) - vis = {x, y}" and "x < y"
  shows "visit_neighbors (sort (graph_get graph node)) (queue, vis) =
           (queue @ [x, y], vis \<union> set (graph_get graph node)) \<and>
         bfs_loop graph (node # queue) vis eo tr =
           bfs_loop graph (queue @ [x, y]) (vis \<union> set (graph_get graph node)) (eo @ [node])
             (tr @ [snap node queue vis (eo @ [node])]) \<and>
         (\<exists>rest. expanded_order (bfs_loop graph (node # queue) vis eo tr)
                   = eo @ node # queue @ x # y # rest) \<and>
         visit_neighbors (rev (sort (graph_get graph node))) (stack, vis) =
           (stack @ [y, x], vis \<union> set (graph_get graph node)) \<and>
         dfs_loop graph (stack @ [node]) vis eo tr =
           dfs_loop graph (stack @ [y, x]) (vis \<union> set (graph_get graph node)) (eo @ [node])
             (tr @ [snap node (rev stack) vis (eo @ [node])]) \<and>
         (\<exists>rest. expanded_order (dfs_loop graph (stack @ [node]) vis eo tr)
                   = eo @ node # x # rest \<and> y \<in> set rest)"
proof -
  let ?vis' = "vis \<union> set (graph_get graph node)"
  let ?tr' = "tr @ [snap node (rev stack) vis (eo @ [node])]"
  have vb: "visit_neighbors (sort (graph_get graph node)) (queue, vis) = (queue @ [x, y], ?vis')"
    by (simp add: visit_neighbors_eq fresh_sort_two [OF assms])
  have vd: "visit_neighbors (rev (sort (graph_get graph node))) (stack, vis) = (stack @ [y, x], ?vis')"
    by (simp add: visit_neighbors_eq fresh_rev_sort_two [OF assms])
  have b: "bfs_loop graph (node # queue) vis eo tr =
           bfs_loop graph (queue @ [x, y]) ?vis' (eo @ [node])
             (tr @ [snap node queue vis (eo @ [node])])"
    by (simp add: bfs_loop_Cons fresh_sort_two [OF assms])
  obtain rest_b where "expanded_order (bfs_loop graph (queue @ [x, y]) ?vis' (eo @ [node])
             (tr @ [snap node queue vis (eo @ [node])])) = (eo @ [node]) @ (queue @ [x, y]) @ rest_b"
    using bfs_expands_queue by blast
  then have eb: "\<exists>rest. expanded_order (bfs_loop graph (node # queue) vis eo tr)
                   = eo @ node # queue @ x # y # rest"
    using b by simp
  have d: "dfs_loop graph (stack @ [node]) vis eo tr =
           dfs_loop graph (stack @ [y, x]) ?vis' (eo @ [node]) ?tr'"
    by (simp add: dfs_loop_snoc fresh_rev_sort_two [OF assms])
  let ?ns = "fresh (rev (sort (graph_get graph x))) ?vis'"
  let ?vis'' = "?vis' \<union> set (graph_get graph x)"
  let ?tr'' = "?tr' @ [snap x (rev (stack @ [y])) ?vis' ((eo @ [node]) @ [x])]"
  have "dfs_loop graph (stack @ [y, x]) ?vis' (eo @ [node]) ?tr' =
        dfs_loop graph ((stack @ [y]) @ ?ns) ?vis'' ((eo @ [node]) @ [x]) ?tr''"
    using dfs_loop_snoc [of graph "stack @ [y]" x ?vis' "eo @ [node]" ?tr'] by simp
  moreover obtain rest where
    "expanded_order (dfs_loop graph ((stack @ [y]) @ ?ns) ?vis'' ((eo @ [node]) @ [x]) ?tr'')
       = ((eo @ [node]) @ [x]) @ rest"
    and "set ((stack @ [y]) @ ?ns) \<subseteq> set rest"
    using dfs_expands_stack by blast
  ultimately have "expanded_order (dfs_loop graph (stack @ [node]) vis eo tr) = eo @ node # x # rest"
    and "y \<in> set rest"
    using d by auto
  then have ed: "\<exists>rest. expanded_order (dfs_loop graph (stack @ [node]) vis eo tr)
                   = eo @ node # x # rest \<and> y \<in> set rest"
    by blast
  show ?thesis using vb b eb vd d ed by (intro conjI)
qed

text \<open>
  Claim C5 at the first step on the fixture graph from \<open>A\<close>, with \<open>x = B\<close> and \<open>y = D\<close>.
\<close>

theorem tie_break_witness:
  "set (graph_get LAB1_GRAPH ''A'') - {''A''} = {''B'', ''D''} \<and> ''B'' < ''D'' \<and>
   visit_neighbors (sort (graph_get LAB1_GRAPH ''A'')) ([], {''A''}) =
     ([''B'', ''D''], {''A''} \<union> set (graph_get LAB1_GRAPH ''A'')) \<and>
   (\<exists>rest. expanded_order (bfs_loop LAB1_GRAPH [''A''] {''A''} [] [])
             = ''A'' # ''B'' # ''D'' # rest) \<and>
   visit_neighbors (rev (sort (graph_get LAB1_GRAPH ''A''))) ([], {''A''}) =
     ([''D'', ''B''], {''A''} \<union> set (graph_get LAB1_GRAPH ''A'')) \<and>
   (\<exists>rest. expanded_order (dfs_loop LAB1_GRAPH [''A''] {''A''} [] [])
             = ''A'' # ''B'' # rest \<and> ''D'' \<in> set rest)"
proof -
  have h1: "set (graph_get LAB1_GRAPH ''A'') - {''A''} = {''B'', ''D''}"
    by (auto simp: graph_get_def LAB1_GRAPH_def)
  have h2: "''B'' < ''D''" by code_simp
  note t = tie_break [OF h1 h2, of "[]" "[]" "[]" "[]", unfolded append_Nil rev.simps(1)]
  show ?thesis
    using t h1 h2 by blast
qed

section \<open>Unknown start node\<close>

lemma graph_get_absent: "node \<notin> set (map fst graph) \<Longrightarrow> graph_get graph node = []"
  by (simp add: graph_get_def map_of_eq_None_iff [THEN iffD2])

text \<open>
  Claim C6. A start node that is neither a key of the graph nor a successor in it is
  accepted: both searches return the expansion order \<open>[start_node]\<close> and a trace of one
  snapshot, whose frontier is empty.
\<close>

theorem unknown_start_node:
  assumes "start_node \<notin> set (map fst graph)"
    and "start_node \<notin> set (concat (map snd graph))"
  shows "breadth_first_search graph start_node =
           ([start_node],
            [\<lparr>expanded = start_node, frontier = [], visited = {start_node},
              process_path = start_node\<rparr>]) \<and>
         depth_first_search graph start_node =
           ([start_node],
            [\<lparr>expanded = start_node, frontier = [], visited = {start_node},
              process_path = start_node\<rparr>])"
proof -
  have g: "graph_get graph start_node = []" by (rule graph_get_absent [OF assms(1)])
  have "bfs_loop graph [start_node] {start_node} [] [] =
      \<lparr>final_frontier = [], final_visited = {start_node}, expanded_order = [start_node],
       trace = [snap start_node [] {start_node} [start_node]]\<rparr>"
    by (simp add: bfs_loop_Cons bfs_loop_Nil g)
  moreover have "dfs_loop graph [start_node] {start_node} [] [] =
      \<lparr>final_frontier = [], final_visited = {start_node}, expanded_order = [start_node],
       trace = [snap start_node [] {start_node} [start_node]]\<rparr>"
    using dfs_loop_snoc [of graph "[]" start_node "{start_node}" "[]" "[]"]
    by (simp add: dfs_loop_Nil g)
  ultimately show ?thesis
    by (simp add: breadth_first_search_def depth_first_search_def snap_def)
qed

text \<open>
  Claim C6 on the fixture graph with the start node \<open>Z\<close>.
\<close>

theorem unknown_start_node_witness:
  "''Z'' \<notin> set (map fst LAB1_GRAPH) \<and> ''Z'' \<notin> set (concat (map snd LAB1_GRAPH)) \<and>
   breadth_first_search LAB1_GRAPH ''Z'' =
     ([''Z''], [\<lparr>expanded = ''Z'', frontier = [], visited = {''Z''}, process_path = ''Z''\<rparr>]) \<and>
   depth_first_search LAB1_GRAPH ''Z'' =
     ([''Z''], [\<lparr>expanded = ''Z'', frontier = [], visited = {''Z''}, process_path = ''Z''\<rparr>])"
proof -
  have h1: "''Z'' \<notin> set (map fst LAB1_GRAPH)" by (simp add: LAB1_GRAPH_def)
  have h2: "''Z'' \<notin> set (concat (map snd LAB1_GRAPH))" by (simp add: LAB1_GRAPH_def)
  show ?thesis
    using unknown_start_node [OF h1 h2] h1 h2 by blast
qed

section \<open>Termination, monotonicity, uniqueness and reachability\<close>

text \<open>
  Claim C7. Both frontier loops end, for every graph and every start node: the loops are
  total functions, they return with an empty frontier, and they expand at most one node
  more than the graph has nodes. Every node of the returned expansion order is in the
  visited set the loop ends with.
\<close>

theorem breadth_first_search_terminates:
  "final_frontier (bfs_loop graph [start_node] {start_node} [] []) = [] \<and>
   length (fst (breadth_first_search graph start_node)) \<le> Suc (length (get_all_nodes graph)) \<and>
   set (fst (breadth_first_search graph start_node))
     \<subseteq> final_visited (bfs_loop graph [start_node] {start_node} [] []) \<and>
   final_frontier (dfs_loop graph [start_node] {start_node} [] []) = [] \<and>
   length (fst (depth_first_search graph start_node)) \<le> Suc (length (get_all_nodes graph)) \<and>
   set (fst (depth_first_search graph start_node))
     \<subseteq> final_visited (dfs_loop graph [start_node] {start_node} [] [])"
  using bfs_final_ok [of graph start_node] dfs_final_ok [of graph start_node]
    final_ok_length [OF bfs_final_ok, of graph start_node]
    final_ok_length [OF dfs_final_ok, of graph start_node]
    final_ok_visited [OF bfs_final_ok, of graph start_node]
    final_ok_visited [OF dfs_final_ok, of graph start_node]
  by (simp add: fst_breadth_first_search fst_depth_first_search final_ok_def)

text \<open>
  Claim C8. Along the trace of either search the visited sets only grow: a snapshot's
  visited set is contained in the visited set of every later snapshot.
\<close>

theorem visited_monotone:
  assumes "search = breadth_first_search \<or> search = depth_first_search"
    and "search graph start_node = (eo, tr)"
    and "i \<le> j" and "j < length tr"
  shows "visited (tr ! i) \<subseteq> visited (tr ! j)"
  by (rule trace_inv_monotone [OF search_trace_inv [OF assms(1,2)] assms(3,4)])

text \<open>
  Claim C8 at the first two snapshots of depth-first search on the fixture graph from \<open>A\<close>.
\<close>

theorem visited_monotone_witness:
  "(depth_first_search = breadth_first_search \<or> depth_first_search = depth_first_search) \<and>
   (0::nat) \<le> 1 \<and> (1::nat) < length (snd (depth_first_search LAB1_GRAPH ''A'')) \<and>
   visited (snd (depth_first_search LAB1_GRAPH ''A'') ! 0)
     \<subseteq> visited (snd (depth_first_search LAB1_GRAPH ''A'') ! 1)"
proof -
  have h1: "depth_first_search = breadth_first_search \<or> depth_first_search = depth_first_search"
    by simp
  have h2: "depth_first_search LAB1_GRAPH ''A'' =
      (fst (depth_first_search LAB1_GRAPH ''A''), snd (depth_first_search LAB1_GRAPH ''A''))"
    by simp
  have h3: "(0::nat) \<le> 1" by simp
  have h4: "(1::nat) < length (snd (depth_first_search LAB1_GRAPH ''A''))"
    by code_simp
  show ?thesis
    using visited_monotone [OF h1 h2 h3 h4] h1 h3 h4 by blast
qed

text \<open>
  Claim C9. No node occurs twice in the expansion order of either search, whatever the
  adjacency lists hold (repeated successors and self-loops included).
\<close>

theorem expansion_order_distinct:
  "distinct (fst (breadth_first_search graph start_node)) \<and>
   distinct (fst (depth_first_search graph start_node))"
  by (simp add: fst_breadth_first_search fst_depth_first_search
      final_ok_distinct [OF bfs_final_ok] final_ok_distinct [OF dfs_final_ok])

text \<open>
  Claim C10. Each search expands exactly the nodes reachable from the start node along
  the directed edges, so both expand the same set of nodes.
\<close>

theorem expansion_order_reachable:
  "set (fst (breadth_first_search graph start_node)) = reachable graph start_node \<and>
   set (fst (depth_first_search graph start_node)) = reachable graph start_node \<and>
   set (fst (breadth_first_search graph start_node)) = set (fst (depth_first_search graph start_node))"
  by (simp add: fst_breadth_first_search fst_depth_first_search
      final_ok_reachable [OF bfs_final_ok] final_ok_reachable [OF dfs_final_ok])

end
